theory Spec2Isabelle
  imports Complex_Main "HOL-Library.Signed_Division" "HOL-Library.Multiset" "HOL-Library.Word"
begin

section \<open>The message-passing operators of \<^verbatim>\<open>mpi_operator.cpp\<close>\<close>

subsection \<open>The MPI calls the operators make\<close>

text \<open>
  The operators call \<^verbatim>\<open>MPI_Isend\<close>, \<^verbatim>\<open>MPI_Irecv\<close>, \<^verbatim>\<open>MPI_Wait\<close> and \<^verbatim>\<open>MPI_Barrier\<close>.
  Every operator of the model returns, besides its new state, the list of MPI calls it made.
\<close>

datatype mpi_call = Wait_call | Isend_call | Irecv_call | Barrier_call

text \<open>
  One directed link: the messages one \<^verbatim>\<open>MPISend\<close> posts to one \<^verbatim>\<open>MPIRecv\<close> (same
  communicator, same peer pair, same tag). MPI matches the messages of one link in the order
  they were posted: the k-th receive posted on the link completes with the k-th message sent
  on it. A request handle is the position of its message on the link.
\<close>

record 'v link =
  sent :: "'v list list"
  posted :: nat

definition MPI_Isend :: "'v list \<Rightarrow> nat \<Rightarrow> 'v link \<Rightarrow> nat \<times> 'v link" where
  "MPI_Isend buf n l = (length (sent l), l\<lparr>sent := sent l @ [take n buf]\<rparr>)"

definition MPI_Irecv :: "'v link \<Rightarrow> nat \<times> 'v link" where
  "MPI_Irecv l = (posted l, l\<lparr>posted := Suc (posted l)\<rparr>)"

text \<open>
  \<^verbatim>\<open>MPI_Wait\<close> on a receive request returns once the matching message has been sent;
  \<open>None\<close> is the caller still blocked in the wait.
\<close>

definition MPI_Wait_recv :: "nat \<Rightarrow> 'v link \<Rightarrow> 'v list option" where
  "MPI_Wait_recv req l = (if req < length (sent l) then Some (sent l ! req) else None)"

text \<open>\<^verbatim>\<open>memcpy(dest, source, n * sizeof(dtype))\<close> on element lists.\<close>

definition memcpy :: "'v list \<Rightarrow> 'v list \<Rightarrow> nat \<Rightarrow> 'v list" where
  "memcpy dest source n = take n source @ drop n dest"

subsection \<open>MPISend and MPIRecv\<close>

text \<open>
  The fields the two classes share, and the peer each adds. \<open>op_size\<close> is the field
  \<^verbatim>\<open>size\<close>, the number of elements of the content view. The constructor initialises
  neither \<open>request\<close> nor the elements of \<open>buffer\<close> (\<^verbatim>\<open>new dtype[size]\<close>): what they hold
  at first (\<open>req0\<close>, and \<open>junk i\<close> in element \<open>i\<close>) is an argument of the constructors here.
  The content region of an operator is the \<open>op_size\<close> elements that \<^verbatim>\<open>content_data\<close> points
  to; the type of the view itself is declared in a header that is not among the sources.
\<close>

record 'v MPIOperator =
  tag :: int
  op_size :: nat
  buffer :: "'v list"
  request :: nat
  first_call :: bool

record 'v MPISend = "'v MPIOperator" +
  dst :: int

record 'v MPIRecv = "'v MPIOperator" +
  src :: int

definition MPISend_new :: "int \<Rightarrow> int \<Rightarrow> 'v list \<Rightarrow> (nat \<Rightarrow> 'v) \<Rightarrow> nat \<Rightarrow> 'v MPISend" where
  "MPISend_new d t content junk req0 =
     \<lparr>tag = t, op_size = length content,
      buffer = map junk [0..<length content],
      request = req0, first_call = True, dst = d\<rparr>"

definition MPIRecv_new :: "int \<Rightarrow> int \<Rightarrow> 'v list \<Rightarrow> (nat \<Rightarrow> 'v) \<Rightarrow> nat \<Rightarrow> 'v MPIRecv" where
  "MPIRecv_new s t content junk req0 =
     \<lparr>tag = t, op_size = length content,
      buffer = map junk [0..<length content],
      request = req0, first_call = True, src = s\<rparr>"

text \<open>
  \<^verbatim>\<open>MPISend::operator()\<close>. The content region is the memory \<^verbatim>\<open>content_data\<close> points to.
  The wait on the previous send request completes once the message has left the buffer; the
  link keeps its own copy of every message from the moment it is posted, so the wait never
  blocks here and changes nothing but the call list.
\<close>

definition MPISend_call ::
  "'v MPISend \<Rightarrow> 'v list \<Rightarrow> 'v link \<Rightarrow> 'v MPISend \<times> 'v link \<times> mpi_call list" where
  "MPISend_call s content l =
     (let waits = (if first_call s then [] else [Wait_call]);
          buf = memcpy (buffer s) content (op_size s);
          (req, l') = MPI_Isend buf (op_size s) l
      in (s\<lparr>first_call := False, buffer := buf, request := req\<rparr>, l', waits @ [Isend_call]))"

text \<open>
  \<^verbatim>\<open>MPIRecv::operator()\<close>: the new operator state, the new content region, the link and
  the calls made; \<open>None\<close> while \<^verbatim>\<open>MPI_Wait\<close> blocks. MPI may fill the buffer at any
  time between the \<^verbatim>\<open>MPI_Irecv\<close> and the return of the \<^verbatim>\<open>MPI_Wait\<close>; the operator does
  not read the buffer in between, so the message is delivered at the wait.
\<close>

definition MPIRecv_call ::
  "'v MPIRecv \<Rightarrow> 'v list \<Rightarrow> 'v link
     \<Rightarrow> ('v MPIRecv \<times> 'v list \<times> 'v link \<times> mpi_call list) option" where
  "MPIRecv_call r content l =
     (if first_call r then
        (let (req, l') = MPI_Irecv l
         in Some (r\<lparr>first_call := False, request := req\<rparr>, content, l', [Irecv_call]))
      else
        (case MPI_Wait_recv (request r) l of
           None \<Rightarrow> None
         | Some msg \<Rightarrow>
             (let buf = memcpy (buffer r) msg (op_size r);
                  content' = memcpy content buf (op_size r);
                  (req, l') = MPI_Irecv l
              in Some (r\<lparr>buffer := buf, request := req\<rparr>, content', l',
                       [Wait_call, Irecv_call]))))"

subsection \<open>MPIBarrier\<close>

text \<open>
  \<^verbatim>\<open>MPIBarrier::operator()\<close>. The counter \<^verbatim>\<open>step\<close> is a C++ integer, declared in
  \<^verbatim>\<open>mpi_operator.hpp\<close>, which is not among the sources: here it is a signed machine
  integer of some width \<open>'w\<close>, read with \<open>sint\<close>. \<^verbatim>\<open>step++\<close> at the largest value is
  undefined in C++; the word wraps around there, and the properties below are about
  counters that have not reached it. The constant \<^verbatim>\<open>BARRIER_PERIOD\<close> (same header) is a
  parameter. C's \<^verbatim>\<open>%\<close> truncates towards zero: \<open>smod\<close>.
\<close>

record 'i MPIBarrier =
  step :: 'i

definition MPIBarrier_call ::
  "int \<Rightarrow> 'w::len word MPIBarrier \<Rightarrow> 'w word MPIBarrier \<times> mpi_call list" where
  "MPIBarrier_call BARRIER_PERIOD b =
     (b\<lparr>step := step b + 1\<rparr>,
      if step b \<noteq> 0 \<and> sint (step b) smod BARRIER_PERIOD = 0 then [Barrier_call] else [])"

text \<open>The operator invoked \<open>n\<close> times in a row, as the step loop does over \<open>n\<close> steps.\<close>

fun MPIBarrier_run ::
  "int \<Rightarrow> nat \<Rightarrow> 'w::len word MPIBarrier \<Rightarrow> 'w word MPIBarrier \<times> mpi_call list" where
  "MPIBarrier_run P 0 b = (b, [])"
| "MPIBarrier_run P (Suc n) b =
     (let (b', cs) = MPIBarrier_call P b;
          (b'', cs') = MPIBarrier_run P n b'
      in (b'', cs @ cs'))"

subsection \<open>A matched send and receive, each executed once per step\<close>

text \<open>
  Two chunks joined by one link. In each of its steps the sending chunk first runs the
  operators that write the content region of the send (after them the region holds \<open>w s\<close>
  in step \<open>s\<close>) and then the \<^verbatim>\<open>MPISend\<close>; the receiving chunk runs the \<^verbatim>\<open>MPIRecv\<close> and
  then the operators that read its content region. \<open>presented\<close> records what those readers
  find, one entry per step of the receiving chunk.
\<close>

record 'v pair_state =
  send_op :: "'v MPISend"
  send_content :: "'v list"
  send_steps :: nat
  recv_op :: "'v MPIRecv"
  recv_content :: "'v list"
  recv_steps :: nat
  wire :: "'v link"
  presented :: "'v list list"

definition pair_new ::
  "int \<Rightarrow> int \<Rightarrow> int \<Rightarrow> 'v list \<Rightarrow> 'v list \<Rightarrow> (nat \<Rightarrow> 'v) \<Rightarrow> (nat \<Rightarrow> 'v) \<Rightarrow> nat \<Rightarrow> nat
     \<Rightarrow> 'v pair_state" where
  "pair_new s d t c_send c_recv junk_s junk_r req_s req_r =
     \<lparr>send_op = MPISend_new d t c_send junk_s req_s, send_content = c_send, send_steps = 0,
      recv_op = MPIRecv_new s t c_recv junk_r req_r, recv_content = c_recv, recv_steps = 0,
      wire = \<lparr>sent = [], posted = 0\<rparr>, presented = []\<rparr>"

definition sender_step :: "(nat \<Rightarrow> 'v list) \<Rightarrow> 'v pair_state \<Rightarrow> 'v pair_state" where
  "sender_step w st =
     (let content = w (send_steps st);
          (s', l', calls) = MPISend_call (send_op st) content (wire st)
      in st\<lparr>send_op := s', send_content := content, wire := l',
             send_steps := Suc (send_steps st)\<rparr>)"

definition receiver_step :: "'v pair_state \<Rightarrow> 'v pair_state option" where
  "receiver_step st =
     (case MPIRecv_call (recv_op st) (recv_content st) (wire st) of
        None \<Rightarrow> None
      | Some (r', content', l', calls) \<Rightarrow>
          Some (st\<lparr>recv_op := r', recv_content := content', wire := l',
                   recv_steps := Suc (recv_steps st),
                   presented := presented st @ [content']\<rparr>))"

text \<open>
  The two processes run concurrently; a schedule says which of them takes its next step.
  A receiver blocked in \<^verbatim>\<open>MPI_Wait\<close> makes no progress in its slot.
\<close>

datatype proc = Sender | Receiver

fun run_pair :: "(nat \<Rightarrow> 'v list) \<Rightarrow> proc list \<Rightarrow> 'v pair_state \<Rightarrow> 'v pair_state" where
  "run_pair w [] st = st"
| "run_pair w (Sender # ps) st = run_pair w ps (sender_step w st)"
| "run_pair w (Receiver # ps) st =
     (case receiver_step st of
        None \<Rightarrow> run_pair w ps st
      | Some st' \<Rightarrow> run_pair w ps st')"

text \<open>What holds of every state the pair reaches (used in the proofs below).\<close>

definition pair_inv :: "(nat \<Rightarrow> 'v list) \<Rightarrow> nat \<Rightarrow> 'v list \<Rightarrow> 'v pair_state \<Rightarrow> bool" where
  "pair_inv w n c0 st \<longleftrightarrow>
     sent (wire st) = map w [0..<send_steps st] \<and>
     posted (wire st) = recv_steps st \<and>
     op_size (send_op st) = n \<and> op_size (recv_op st) = n \<and>
     length (buffer (recv_op st)) = n \<and>
     first_call (recv_op st) = (recv_steps st = 0) \<and>
     (0 < recv_steps st \<longrightarrow> request (recv_op st) = recv_steps st - 1) \<and>
     recv_steps st \<le> Suc (send_steps st) \<and>
     recv_content st = (if recv_steps st \<le> 1 then c0 else w (recv_steps st - 2)) \<and>
     presented st = map (\<lambda>s. if s = 0 then c0 else w (s - 1)) [0..<recv_steps st]"

section \<open>The chunk: operators, probes and the step loop\<close>

text \<open>
  \<^verbatim>\<open>chunk.hpp\<close> declares the chunk; \<^verbatim>\<open>chunk.cpp\<close> and \<^verbatim>\<open>probe.cpp\<close> are not among the
  sources. The signal store is a type \<open>'s\<close> of its own; an operator is its index and what
  its call does to the store, and a probe reads its target view from the store.
  Indices are of a linearly ordered type (floats without NaN).
\<close>

type_synonym key_type = int

record ('i, 's) Operator =
  index :: 'i
  call :: "'s \<Rightarrow> 's"

definition get_index :: "('i, 's) Operator \<Rightarrow> 'i" where
  "get_index op = index op"

text \<open>\<^verbatim>\<open>compare_op_ptr\<close> of \<^verbatim>\<open>chunk.hpp\<close>.\<close>

definition compare_op_ptr :: "('i::linorder, 's) Operator \<Rightarrow> ('i, 's) Operator \<Rightarrow> bool" where
  "compare_op_ptr left right \<longleftrightarrow> get_index left < get_index right"

text \<open>
  Modelled from the spec: the probe of section 4.5 (\<^verbatim>\<open>probe.cpp\<close> is missing):
  \<^verbatim>\<open>{target, period, buffer}\<close>; \<^verbatim>\<open>sample(step)\<close> appends a copy of the current target view
  if \<^verbatim>\<open>step mod period == 0\<close>; \<^verbatim>\<open>flush()\<close> moves the buffer into the log sink.
\<close>

record ('s, 'v) Probe =
  target :: "'s \<Rightarrow> 'v list"
  period :: int
  probe_buffer :: "'v list list"

definition sample :: "int \<Rightarrow> 's \<Rightarrow> ('s, 'v) Probe \<Rightarrow> ('s, 'v) Probe" where
  "sample step_no store p =
     (if step_no smod period p = 0
      then p\<lparr>probe_buffer := probe_buffer p @ [target p store]\<rparr>
      else p)"

definition clear :: "('s, 'v) Probe \<Rightarrow> ('s, 'v) Probe" where
  "clear p = p\<lparr>probe_buffer := []\<rparr>"

text \<open>
  The chunk, with the fields of \<^verbatim>\<open>chunk.hpp\<close> that the properties below are about:
  \<open>signals\<close> is \<^verbatim>\<open>signal_map\<close>, \<open>initial\<close> is \<^verbatim>\<open>signal_init_value\<close>, \<open>step_counter\<close> is
  \<^verbatim>\<open>n_steps\<close>, \<open>operators\<close> is \<^verbatim>\<open>operator_list\<close>, \<open>probes\<close> is \<^verbatim>\<open>probe_map\<close>, and \<open>sim_log\<close>
  is what the log sink holds for each probe key (the samples flushed so far).
\<close>

record ('i, 's, 'v) Chunk =
  dt :: real
  time :: real
  step_counter :: int
  signals :: 's
  initial :: 's
  operators :: "('i, 's) Operator list"
  probes :: "key_type \<rightharpoonup> ('s, 'v) Probe"
  sim_log :: "key_type \<Rightarrow> 'v list list"
  mpi_sends :: "'v MPISend list"
  mpi_recvs :: "'v MPIRecv list"

text \<open>\<^verbatim>\<open>FLUSH_PROBES_EVERY\<close> of \<^verbatim>\<open>chunk.hpp\<close>.\<close>

definition FLUSH_PROBES_EVERY :: int where
  "FLUSH_PROBES_EVERY = 1000"

text \<open>
  \<^verbatim>\<open>add_op\<close>: the operator goes to the end of the operator list (the header: the order in
  which operators are added is the order of the list).
\<close>

definition add_op :: "('i, 's) Operator \<Rightarrow> ('i, 's, 'v) Chunk \<Rightarrow> ('i, 's, 'v) Chunk" where
  "add_op op c = c\<lparr>operators := operators c @ [op]\<rparr>"

text \<open>
  Modelled from the spec: \<^verbatim>\<open>finalize_build\<close>, step 1 of section 4.3 (``sort operators by
  index ascending (stable)''); its body is in the missing \<^verbatim>\<open>chunk.cpp\<close>. The sort compares
  with \<^verbatim>\<open>compare_op_ptr\<close> only: taking the operators from the last added to the first, each
  goes in front of the first operator that is not before it.
\<close>

fun place_op :: "('i::linorder, 's) Operator \<Rightarrow> ('i, 's) Operator list \<Rightarrow> ('i, 's) Operator list" where
  "place_op op [] = [op]"
| "place_op op (x # xs) =
     (if compare_op_ptr x op then x # place_op op xs else op # x # xs)"

definition finalize_build :: "('i::linorder, 's, 'v) Chunk \<Rightarrow> ('i, 's, 'v) Chunk" where
  "finalize_build c = c\<lparr>operators := foldr place_op (operators c) []\<rparr>"

text \<open>
  Modelled from the spec: the step loop of section 4.3 (\<^verbatim>\<open>run_n_steps\<close>, in the missing
  \<^verbatim>\<open>chunk.cpp\<close>). One step invokes each operator in order, lets the probes sample at the
  step counter, adds \<open>dt\<close> to the time and flushes the probes if the step counter plus one
  is a multiple of \<^verbatim>\<open>FLUSH_PROBES_EVERY\<close>.
\<close>

definition invoke_operators :: "('i, 's) Operator list \<Rightarrow> 's \<Rightarrow> 's" where
  "invoke_operators ops store = fold call ops store"

definition flush_probes :: "('i, 's, 'v) Chunk \<Rightarrow> ('i, 's, 'v) Chunk" where
  "flush_probes c =
     c\<lparr>sim_log := (\<lambda>k. case probes c k of
                           None \<Rightarrow> sim_log c k
                         | Some p \<Rightarrow> sim_log c k @ probe_buffer p),
       probes := (\<lambda>k. map_option clear (probes c k))\<rparr>"

definition chunk_step :: "('i, 's, 'v) Chunk \<Rightarrow> ('i, 's, 'v) Chunk" where
  "chunk_step c =
     (let store = invoke_operators (operators c) (signals c);
          c1 = c\<lparr>signals := store,
                 probes := (\<lambda>k. map_option (sample (step_counter c) store) (probes c k)),
                 time := time c + dt c\<rparr>;
          c2 = (if (step_counter c + 1) smod FLUSH_PROBES_EVERY = 0 then flush_probes c1 else c1)
      in c2\<lparr>step_counter := step_counter c + 1\<rparr>)"

fun run_n_steps :: "nat \<Rightarrow> ('i, 's, 'v) Chunk \<Rightarrow> ('i, 's, 'v) Chunk" where
  "run_n_steps 0 c = c"
| "run_n_steps (Suc k) c = run_n_steps k (chunk_step c)"

text \<open>
  Everything a probe has collected: what it has flushed to the log sink, in order, and
  then what is still in its buffer.
\<close>

definition collected :: "key_type \<Rightarrow> ('i, 's, 'v) Chunk \<Rightarrow> 'v list list" where
  "collected k c =
     sim_log c k @ (case probes c k of None \<Rightarrow> [] | Some p \<Rightarrow> probe_buffer p)"

text \<open>The signal store after the operators of the steps \<open>0, \<dots>, s\<close> have run.\<close>

fun store_after :: "('i, 's) Operator list \<Rightarrow> 's \<Rightarrow> nat \<Rightarrow> 's" where
  "store_after ops store 0 = invoke_operators ops store"
| "store_after ops store (Suc s) = invoke_operators ops (store_after ops store s)"

subsection \<open>Two small chunks\<close>

text \<open>
  A chunk whose store is a string: four operators, added with the indices 2, 1, 2, 1, each
  appending its letter to the store.
\<close>

definition letter_ops :: "(real, string) Operator list" where
  "letter_ops =
     [\<lparr>index = 2, call = (\<lambda>s. s @ ''a'')\<rparr>, \<lparr>index = 1, call = (\<lambda>s. s @ ''b'')\<rparr>,
      \<lparr>index = 2, call = (\<lambda>s. s @ ''c'')\<rparr>, \<lparr>index = 1, call = (\<lambda>s. s @ ''d'')\<rparr>]"

definition letter_chunk :: "(real, string, real) Chunk" where
  "letter_chunk =
     foldl (\<lambda>c op. add_op op c)
       \<lparr>dt = 0.001, time = 0, step_counter = 0, signals = [], initial = [],
        operators = [], probes = Map.empty, sim_log = (\<lambda>k. []),
        mpi_sends = [], mpi_recvs = []\<rparr>
       letter_ops"

text \<open>
  A chunk whose store is a counter that its one operator increments, with a probe of
  period 3 on it under the key 5.
\<close>

definition counter_chunk :: "(real, nat, real) Chunk" where
  "counter_chunk =
     \<lparr>dt = 0.001, time = 0, step_counter = 0, signals = 0, initial = 0,
      operators = [\<lparr>index = 1, call = Suc\<rparr>],
      probes = [5 \<mapsto> \<lparr>target = (\<lambda>s. [real s]), period = 3, probe_buffer = []\<rparr>],
      sim_log = (\<lambda>k. []), mpi_sends = [], mpi_recvs = []\<rparr>"

section \<open>The build loop of a worker (\<^verbatim>\<open>start_worker\<close>)\<close>

text \<open>
  What the master sends to a worker on the setup tag, one message per \<^verbatim>\<open>send_*\<close> call.
  The matrix payload is of a type \<open>'m\<close> of its own.
\<close>

datatype 'm wire_msg =
    Int_msg int
  | Float_msg real
  | Key_msg key_type
  | String_msg string
  | Matrix_msg 'm

text \<open>
  The \<^verbatim>\<open>recv_*\<close> helpers (declared in the missing \<^verbatim>\<open>mpi_interface.hpp\<close>) take the next
  message from the master: the value and the messages left, \<open>Waiting\<close> when the master has
  sent nothing more (the blocking receive does not return), and \<open>Mismatch\<close> for a message
  of another type, which MPI leaves undefined.
\<close>

datatype ('a, 'm) received = Got 'a "'m wire_msg list" | Waiting | Mismatch

fun recv_int :: "'m wire_msg list \<Rightarrow> (int, 'm) received" where
  "recv_int [] = Waiting"
| "recv_int (Int_msg i # ms) = Got i ms"
| "recv_int (_ # ms) = Mismatch"

fun recv_key :: "'m wire_msg list \<Rightarrow> (key_type, 'm) received" where
  "recv_key [] = Waiting"
| "recv_key (Key_msg k # ms) = Got k ms"
| "recv_key (_ # ms) = Mismatch"

fun recv_string :: "'m wire_msg list \<Rightarrow> (string, 'm) received" where
  "recv_string [] = Waiting"
| "recv_string (String_msg s # ms) = Got s ms"
| "recv_string (_ # ms) = Mismatch"

fun recv_matrix :: "'m wire_msg list \<Rightarrow> ('m, 'm) received" where
  "recv_matrix [] = Waiting"
| "recv_matrix (Matrix_msg d # ms) = Got d ms"
| "recv_matrix (_ # ms) = Mismatch"

text \<open>
  Modelled from the spec: the flag values of section 6 (the constants are declared in the
  missing \<^verbatim>\<open>mpi_interface.hpp\<close>).
\<close>

definition add_signal_flag :: int where "add_signal_flag = 1"
definition add_op_flag :: int where "add_op_flag = 2"
definition add_probe_flag :: int where "add_probe_flag = 3"
definition stop_flag :: int where "stop_flag = 4"

text \<open>
  The calls the loop makes on its chunk. Their bodies are in the missing \<^verbatim>\<open>chunk.cpp\<close>,
  so the chunk under construction is the list of the calls made on it so far.
\<close>

datatype 'm build_call =
    Add_base_signal key_type string 'm
  | Add_op string
  | Add_probe key_type string int

datatype worker_error = Invalid_flag | Undefined_receive

text \<open>
  How the loop ends: left through \<^verbatim>\<open>break\<close> with the chunk built and the messages not yet
  read, left through an exception, or never left (\<open>Blocked\<close> in a receive).
  \<open>Invalid_flag\<close> is \<^verbatim>\<open>runtime_error("Worker received invalid flag from master.")\<close>.
\<close>

datatype 'm worker_result =
    Built "'m build_call list" "'m wire_msg list"
  | Raised worker_error
  | Blocked

text \<open>The \<^verbatim>\<open>while(1)\<close> loop of \<^verbatim>\<open>start_worker\<close>.\<close>

function worker_loop :: "'m build_call list \<Rightarrow> 'm wire_msg list \<Rightarrow> 'm worker_result" where
  "worker_loop chunk ms =
     (case recv_int ms of
        Waiting \<Rightarrow> Blocked
      | Mismatch \<Rightarrow> Raised Undefined_receive
      | Got s ms1 \<Rightarrow>
          if s = add_signal_flag then
            (case recv_key ms1 of
               Waiting \<Rightarrow> Blocked
             | Mismatch \<Rightarrow> Raised Undefined_receive
             | Got key ms2 \<Rightarrow>
                 (case recv_string ms2 of
                    Waiting \<Rightarrow> Blocked
                  | Mismatch \<Rightarrow> Raised Undefined_receive
                  | Got label ms3 \<Rightarrow>
                      (case recv_matrix ms3 of
                         Waiting \<Rightarrow> Blocked
                       | Mismatch \<Rightarrow> Raised Undefined_receive
                       | Got data ms4 \<Rightarrow>
                           worker_loop (chunk @ [Add_base_signal key label data]) ms4)))
          else if s = add_op_flag then
            (case recv_string ms1 of
               Waiting \<Rightarrow> Blocked
             | Mismatch \<Rightarrow> Raised Undefined_receive
             | Got op_string ms2 \<Rightarrow> worker_loop (chunk @ [Add_op op_string]) ms2)
          else if s = add_probe_flag then
            (case recv_key ms1 of
               Waiting \<Rightarrow> Blocked
             | Mismatch \<Rightarrow> Raised Undefined_receive
             | Got probe_key ms2 \<Rightarrow>
                 (case recv_string ms2 of
                    Waiting \<Rightarrow> Blocked
                  | Mismatch \<Rightarrow> Raised Undefined_receive
                  | Got signal_string ms3 \<Rightarrow>
                      (case recv_int ms3 of
                         Waiting \<Rightarrow> Blocked
                       | Mismatch \<Rightarrow> Raised Undefined_receive
                       | Got probe_period ms4 \<Rightarrow>
                           worker_loop
                             (chunk @ [Add_probe probe_key signal_string probe_period]) ms4)))
          else if s = stop_flag then Built chunk ms1
          else Raised Invalid_flag)"
  by pat_completeness auto
termination
  by (relation "measure (\<lambda>(chunk, ms). length ms)")
    (auto elim!: recv_int.elims recv_key.elims recv_string.elims recv_matrix.elims)

declare worker_loop.simps [simp del]

text \<open>The messages the master sends for one call on the worker's chunk.\<close>

fun encode :: "'m build_call \<Rightarrow> 'm wire_msg list" where
  "encode (Add_base_signal key label data) =
     [Int_msg add_signal_flag, Key_msg key, String_msg label, Matrix_msg data]"
| "encode (Add_op op_string) = [Int_msg add_op_flag, String_msg op_string]"
| "encode (Add_probe probe_key signal_string probe_period) =
     [Int_msg add_probe_flag, Key_msg probe_key, String_msg signal_string, Int_msg probe_period]"

text \<open>Three calls a master may send: a signal, an operator and a probe.\<close>

definition three_calls :: "real list list build_call list" where
  "three_calls = [Add_base_signal 1 ''a'' [[0]], Add_op ''Reset'', Add_probe 2 ''a'' 1]"

section \<open>The Python bridge (\<^verbatim>\<open>python.cpp\<close>)\<close>

text \<open>
  The Python values of the model: a number (a Python float), a list, a one-dimensional
  numpy array of doubles and \<open>None\<close>. \<open>'d\<close> is the C type \<^verbatim>\<open>double\<close> (\<^verbatim>\<open>dtype\<close>, and
  Python's float). A failed conversion or subscript throws \<^verbatim>\<open>bpy::error_already_set\<close> with
  the Python exception set.
\<close>

datatype 'd pyobj = PyFloat 'd | PyList "'d pyobj list" | PyArray "'d list" | PyNone

datatype py_error = TypeError | IndexError

text \<open>
  \<^verbatim>\<open>bpy::extract<float>(obj)\<close>, assigned to a \<^verbatim>\<open>dtype\<close>: \<open>as_float\<close> is the conversion of a
  double to a C \<^verbatim>\<open>float\<close>, widened to \<^verbatim>\<open>double\<close> again by the assignment. Only a number
  converts; a list, an array (of any size) or \<open>None\<close> does not.
\<close>

fun extract_float :: "('d \<Rightarrow> 'd) \<Rightarrow> 'd pyobj \<Rightarrow> py_error + 'd" where
  "extract_float as_float (PyFloat x) = Inr (as_float x)"
| "extract_float as_float obj = Inl TypeError"

text \<open>\<^verbatim>\<open>obj[i]\<close>.\<close>

fun py_getitem :: "'d pyobj \<Rightarrow> nat \<Rightarrow> py_error + 'd pyobj" where
  "py_getitem (PyList xs) i = (if i < length xs then Inr (xs ! i) else Inl IndexError)"
| "py_getitem (PyArray xs) i = (if i < length xs then Inr (PyFloat (xs ! i)) else Inl IndexError)"
| "py_getitem obj i = Inl TypeError"

subsection \<open>The host-callback operator \<^verbatim>\<open>PyFunc\<close>\<close>

text \<open>
  The callback takes the arguments the operator passes (the time and the input array, as
  far as they are supplied) and returns an object or raises. \<open>output\<close>, \<open>input\<close> and \<open>time\<close>
  are pointers into the chunk: what they point to is an argument of the call.
\<close>

record 'd PyFunc =
  py_fn :: "'d pyobj list \<Rightarrow> py_error + 'd pyobj"
  supply_time :: bool
  supply_input :: bool

definition PyFunc_args :: "'d PyFunc \<Rightarrow> 'd \<Rightarrow> 'd list \<Rightarrow> 'd pyobj list" where
  "PyFunc_args f t input =
     (if supply_input f
      then (if supply_time f then [PyFloat t, PyArray input] else [PyArray input])
      else (if supply_time f then [PyFloat t] else []))"

text \<open>
  The loop of the \<^verbatim>\<open>catch\<close> block, from the index \<open>i\<close> on. Each element is stored as soon
  as it has been converted, so when a subscript or a conversion throws, the exception
  leaves with the output vector as the loop has left it: the elements before \<open>i\<close> already
  overwritten, the others as they were.
\<close>

function write_output ::
  "('d \<Rightarrow> 'd) \<Rightarrow> 'd pyobj \<Rightarrow> nat \<Rightarrow> 'd list \<Rightarrow> py_error \<times> 'd list + 'd list" where
  "write_output as_float py_output i output =
     (if i < length output then
        (case py_getitem py_output i of
           Inl e \<Rightarrow> Inl (e, output)
         | Inr item \<Rightarrow>
             (case extract_float as_float item of
                Inl e \<Rightarrow> Inl (e, output)
              | Inr x \<Rightarrow> write_output as_float py_output (Suc i) (output[i := x])))
      else Inr output)"
  by pat_completeness auto
termination
  by (relation "measure (\<lambda>(as_float, py_output, i, output). length output - i)") auto

declare write_output.simps [simp del]

text \<open>
  \<^verbatim>\<open>PyFunc::operator()\<close>: the output vector when the operator returns (\<open>Inr\<close>), or the
  exception that leaves the operator together with the output vector at that moment
  (\<open>Inl\<close>). The \<^verbatim>\<open>try\<close> block writes element 0 (the output vector is not empty); only a
  failed conversion of the whole object leads to the loop.
\<close>

definition PyFunc_call ::
  "('d \<Rightarrow> 'd) \<Rightarrow> 'd PyFunc \<Rightarrow> 'd \<Rightarrow> 'd list \<Rightarrow> 'd list \<Rightarrow> py_error \<times> 'd list + 'd list" where
  "PyFunc_call as_float f t input output =
     (case py_fn f (PyFunc_args f t input) of
        Inl e \<Rightarrow> Inl (e, output)
      | Inr py_output \<Rightarrow>
          (case extract_float as_float py_output of
             Inr x \<Rightarrow> Inr (output[0 := x])
           | Inl e \<Rightarrow> write_output as_float py_output 0 output))"

text \<open>
  Two callbacks: one returns the list \<open>[1, 2, 3]\<close> whatever it is given, the other the
  number 7.
\<close>

definition list_callback :: "real PyFunc" where
  "list_callback =
     \<lparr>py_fn = (\<lambda>args. Inr (PyList [PyFloat 1, PyFloat 2, PyFloat 3])),
      supply_time = False, supply_input = False\<rparr>"

definition scalar_callback :: "real PyFunc" where
  "scalar_callback = \<lparr>py_fn = (\<lambda>args. Inr (PyFloat 7)), supply_time = True, supply_input = False\<rparr>"

section \<open>The simulator (\<^verbatim>\<open>simulator.cpp\<close>)\<close>

text \<open>
  The simulator with its master chunk and the probe data it has gathered.
  The body of \<^verbatim>\<open>MpiSimulator::reset\<close> holds comments only (``TODO: clear probe data, tell
  master chunk to reset, send a signal to remote chunks telling them to reset'').
\<close>

record ('i, 's, 'v) MpiSimulator =
  num_components :: int
  master_chunk :: "('i, 's, 'v) Chunk"
  probe_data :: "key_type \<rightharpoonup> 'v list list"
  probe_counts :: "int \<rightharpoonup> int"

definition reset :: "('i, 's, 'v) MpiSimulator \<Rightarrow> ('i, 's, 'v) MpiSimulator" where
  "reset sim = sim"

text \<open>
  A simulator after one step of the counter chunk, with the sample gathered and a receive
  operator that has made its first call.
\<close>

definition stepped_simulator :: "(real, nat, real) MpiSimulator" where
  "stepped_simulator =
     \<lparr>num_components = 1,
      master_chunk = (run_n_steps 1 counter_chunk)
        \<lparr>mpi_recvs := [\<lparr>tag = 7, op_size = 1, buffer = [0], request = 0,
                        first_call = False, src = 1\<rparr>]\<rparr>,
      probe_data = [5 \<mapsto> [[1]]],
      probe_counts = [0 \<mapsto> 1]\<rparr>"

section \<open>Properties of the message-passing operators\<close>

lemma smod_zero_iff_dvd:
  fixes k :: int
  assumes "0 \<le> k" and "0 < p"
  shows "k smod p = 0 \<longleftrightarrow> p dvd k"
  using assms by (auto simp: signed_modulo_int_def mod_eq_0_iff_dvd sgn_if)

lemma sint_succ:
  fixes x :: "'w::len word"
  assumes "0 \<le> sint x" and "sint x < 2 ^ (LENGTH('w) - 1) - 1"
  shows "sint (x + 1) = sint x + 1"
proof -
  have "x + 1 = word_of_int (sint x + 1)"
    by simp
  then have "sint (x + 1) = sint (word_of_int (sint x + 1) :: 'w word)"
    by (rule arg_cong)
  also have "\<dots> = signed_take_bit (LENGTH('w) - 1) (sint x + 1)"
    by (rule sint_sbintrunc')
  also have "\<dots> = sint x + 1"
    using assms by (intro signed_take_bit_int_eq_self) simp_all
  finally show ?thesis .
qed

lemma sint_zero_iff:
  fixes x :: "'w::len word"
  shows "sint x = 0 \<longleftrightarrow> x = 0"
proof
  assume "sint x = 0"
  then have "(word_of_int (sint x) :: 'w word) = word_of_int 0"
    by (rule arg_cong)
  then show "x = 0" by simp
next
  assume "x = 0"
  then show "sint x = 0" by simp
qed

lemma MPIBarrier_call_calls:
  fixes b :: "'w::len word MPIBarrier"
  assumes "0 < P" and "0 \<le> sint (step b)"
  shows "snd (MPIBarrier_call P b) =
           (if sint (step b) \<noteq> 0 \<and> P dvd sint (step b) then [Barrier_call] else [])"
  using assms by (simp add: MPIBarrier_call_def smod_zero_iff_dvd sint_zero_iff)

lemma MPIBarrier_call_step:
  fixes b :: "'w::len word MPIBarrier"
  assumes "0 \<le> sint (step b)" and "sint (step b) < 2 ^ (LENGTH('w) - 1) - 1"
  shows "sint (step (fst (MPIBarrier_call P b))) = sint (step b) + 1"
  using assms by (simp add: MPIBarrier_call_def sint_succ)

lemma div_pred_step_int:
  fixes p k :: int
  assumes "0 < p"
  shows "k div p = (k - 1) div p + (if p dvd k then 1 else 0)"
proof (cases "p dvd k")
  case True
  then obtain q where k: "k = p * q" ..
  have "k - 1 = p * (q - 1) + (p - 1)"
    unfolding k by (simp add: right_diff_distrib)
  then have "(k - 1) div p = q - 1"
    by (rule int_div_pos_eq [of "k - 1" p "q - 1" "p - 1"]) (use assms in simp_all)
  moreover have "k div p = q"
    using assms by (simp add: k)
  ultimately show ?thesis using True by simp
next
  case False
  then have "k mod p \<noteq> 0"
    by (simp add: mod_eq_0_iff_dvd)
  then have r: "1 \<le> k mod p" "k mod p < p"
    using assms pos_mod_sign [of p k] pos_mod_bound [of p k] by linarith+
  have "k - 1 = p * (k div p) + (k mod p - 1)"
    by (simp add: algebra_simps)
  then have "(k - 1) div p = k div p"
    by (rule int_div_pos_eq [of "k - 1" p "k div p" "k mod p - 1"]) (use r in simp_all)
  then show ?thesis using False by simp
qed

lemma count_step:
  fixes c P X :: int
  assumes d: "c div P = (c - 1) div P + (if P dvd c then 1 else 0)" and mono: "c div P \<le> X"
  shows "nat (if P dvd c then 1 else 0) + nat (X - c div P) = nat (X - (c - 1) div P)"
proof (cases "P dvd c")
  case True
  then have "(c - 1) div P = c div P - 1" using d by simp
  then have "nat (X - (c - 1) div P) = nat (1 + (X - c div P))" by simp
  also have "\<dots> = nat 1 + nat (X - c div P)"
    using mono by (intro nat_add_distrib) simp_all
  finally show ?thesis using True by simp
next
  case False
  then have "(c - 1) div P = c div P" using d by simp
  then show ?thesis using False by simp
qed

text \<open>\<open>n\<close> invocations from a counter of at least 1, without overflow.\<close>

lemma MPIBarrier_run_count:
  fixes b :: "'w::len word MPIBarrier"
  assumes "0 < P" and "1 \<le> sint (step b)"
    and "sint (step b) + int n \<le> 2 ^ (LENGTH('w) - 1) - 1"
  shows "snd (MPIBarrier_run P n b) =
           replicate (nat ((sint (step b) + int n - 1) div P - (sint (step b) - 1) div P)) Barrier_call \<and>
         sint (step (fst (MPIBarrier_run P n b))) = sint (step b) + int n"
  using assms(2,3)
proof (induction n arbitrary: b)
  case 0
  show ?case by simp
next
  case (Suc n)
  let ?c = "sint (step b)"
  let ?b' = "fst (MPIBarrier_call P b)"
  have c': "sint (step ?b') = ?c + 1"
  proof (rule MPIBarrier_call_step)
    show "0 \<le> ?c" using Suc.prems(1) by linarith
    show "?c < 2 ^ (LENGTH('w) - 1) - 1" using Suc.prems(2) by linarith
  qed
  have "0 \<le> ?c" "?c \<noteq> 0"
    using Suc.prems(1) by linarith+
  then have here: "snd (MPIBarrier_call P b) = replicate (nat (if P dvd ?c then 1 else 0)) Barrier_call"
    using assms(1) by (simp add: MPIBarrier_call_calls)
  have "snd (MPIBarrier_run P n ?b') =
           replicate (nat ((sint (step ?b') + int n - 1) div P - (sint (step ?b') - 1) div P))
             Barrier_call \<and>
         sint (step (fst (MPIBarrier_run P n ?b'))) = sint (step ?b') + int n"
  proof (rule Suc.IH)
    show "1 \<le> sint (step ?b')"
      using Suc.prems(1) c' by linarith
    show "sint (step ?b') + int n \<le> 2 ^ (LENGTH('w) - 1) - 1"
      using Suc.prems(2) c' by linarith
  qed
  then have ih: "snd (MPIBarrier_run P n ?b') =
           replicate (nat ((?c + 1 + int n - 1) div P - (?c + 1 - 1) div P)) Barrier_call \<and>
         sint (step (fst (MPIBarrier_run P n ?b'))) = ?c + 1 + int n"
    unfolding c' .
  have e: "?c + 1 + int n - 1 = ?c + int n" "?c + 1 - 1 = ?c"
    "?c + int (Suc n) - 1 = ?c + int n" "?c + 1 + int n = ?c + int (Suc n)"
    by simp_all
  have d: "?c div P = (?c - 1) div P + (if P dvd ?c then 1 else 0)"
    using assms(1) by (rule div_pred_step_int)
  have mono: "?c div P \<le> (?c + int n) div P"
    using assms(1) by (intro zdiv_mono1) simp_all
  have cnt: "nat (if P dvd ?c then 1 else 0) + nat ((?c + int n) div P - ?c div P) =
        nat ((?c + int n) div P - (?c - 1) div P)"
    using d mono by (rule count_step)
  have run: "MPIBarrier_run P (Suc n) b =
      (fst (MPIBarrier_run P n ?b'), snd (MPIBarrier_call P b) @ snd (MPIBarrier_run P n ?b'))"
    by (simp add: split_beta Let_def)
  have "snd (MPIBarrier_run P (Suc n) b) =
      replicate (nat (if P dvd ?c then 1 else 0)) Barrier_call @
      replicate (nat ((?c + int n) div P - ?c div P)) Barrier_call"
    using ih here unfolding run e by simp
  also have "\<dots> = replicate (nat ((?c + int n) div P - (?c - 1) div P)) Barrier_call"
    by (simp only: replicate_add [symmetric] cnt)
  finally have 1: "snd (MPIBarrier_run P (Suc n) b) =
      replicate (nat ((?c + int (Suc n) - 1) div P - (?c - 1) div P)) Barrier_call"
    unfolding e .
  have 2: "sint (step (fst (MPIBarrier_run P (Suc n) b))) = ?c + int (Suc n)"
    using ih unfolding run e by simp
  show ?case using 1 2 by (rule conjI)
qed

lemma one_window:
  fixes P c :: int
  assumes "0 < P"
  shows "(c + P - 1) div P - (c - 1) div P = 1"
proof -
  have "(c - 1 + P) div P = (c - 1) div P + 1"
    using assms by simp
  moreover have "c + P - 1 = c - 1 + P"
    by simp
  ultimately show ?thesis by (simp only: add_diff_cancel_left')
qed

text \<open>
  Claim C5. With a positive \<^verbatim>\<open>BARRIER_PERIOD\<close>: an invocation changes nothing but the
  counter, which it advances by one, and performs the collective barrier exactly when the
  counter is a multiple of the period other than 0 (at the counter 0 the guard
  \<^verbatim>\<open>step != 0\<close> holds the barrier back). So from any counter of at least 1, as long as the
  counter does not overflow, \<^verbatim>\<open>BARRIER_PERIOD\<close> invocations in a row perform the barrier
  exactly once.
\<close>

theorem MPIBarrier_once_per_period:
  fixes b :: "'w::len word MPIBarrier"
  assumes "0 < P"
  shows "fst (MPIBarrier_call P b) = b\<lparr>step := step b + 1\<rparr> \<and>
         (0 \<le> sint (step b) \<longrightarrow>
            snd (MPIBarrier_call P b) =
              (if sint (step b) \<noteq> 0 \<and> P dvd sint (step b) then [Barrier_call] else [])) \<and>
         (0 \<le> sint (step b) \<and> sint (step b) < 2 ^ (LENGTH('w) - 1) - 1 \<longrightarrow>
            sint (step (fst (MPIBarrier_call P b))) = sint (step b) + 1) \<and>
         (1 \<le> sint (step b) \<and> sint (step b) + P \<le> 2 ^ (LENGTH('w) - 1) - 1 \<longrightarrow>
            snd (MPIBarrier_run P (nat P) b) = [Barrier_call] \<and>
            sint (step (fst (MPIBarrier_run P (nat P) b))) = sint (step b) + P)"
proof -
  have w: "snd (MPIBarrier_run P (nat P) b) = [Barrier_call] \<and>
           sint (step (fst (MPIBarrier_run P (nat P) b))) = sint (step b) + P"
    if "1 \<le> sint (step b) \<and> sint (step b) + P \<le> 2 ^ (LENGTH('w) - 1) - 1"
    using MPIBarrier_run_count [of P b "nat P"] that assms one_window [of P "sint (step b)"]
    by simp
  show ?thesis
    using assms w by (simp add: MPIBarrier_call_calls MPIBarrier_call_step) (simp add: MPIBarrier_call_def)
qed

text \<open>
  A 32-bit counter and the period 1000: no barrier at the counters 0 and 999, a barrier at
  2000, and exactly one barrier in the 1000 invocations from the counter 1 to 1000.
\<close>

theorem MPIBarrier_once_per_period_witness:
  "snd (MPIBarrier_call 1000 \<lparr>step = 0 :: 32 word\<rparr>) = [] \<and>
   snd (MPIBarrier_call 1000 \<lparr>step = 999 :: 32 word\<rparr>) = [] \<and>
   MPIBarrier_call 1000 \<lparr>step = 2000 :: 32 word\<rparr> = (\<lparr>step = 2001\<rparr>, [Barrier_call]) \<and>
   snd (MPIBarrier_run 1000 1000 \<lparr>step = 1 :: 32 word\<rparr>) = [Barrier_call] \<and>
   sint (step (fst (MPIBarrier_run 1000 1000 \<lparr>step = 1 :: 32 word\<rparr>))) = 1001"
proof -
  have a: "snd (MPIBarrier_call 1000 \<lparr>step = 0 :: 32 word\<rparr>) = []"
    using MPIBarrier_once_per_period [of 1000 "\<lparr>step = 0 :: 32 word\<rparr>"] by simp
  have b: "snd (MPIBarrier_call 1000 \<lparr>step = 999 :: 32 word\<rparr>) = []"
    using MPIBarrier_once_per_period [of 1000 "\<lparr>step = 999 :: 32 word\<rparr>"] by simp
  have c: "MPIBarrier_call 1000 \<lparr>step = 2000 :: 32 word\<rparr> = (\<lparr>step = 2001\<rparr>, [Barrier_call])"
    using MPIBarrier_once_per_period [of 1000 "\<lparr>step = 2000 :: 32 word\<rparr>"]
    by (simp add: prod_eq_iff)
  have d: "snd (MPIBarrier_run 1000 1000 \<lparr>step = 1 :: 32 word\<rparr>) = [Barrier_call] \<and>
   sint (step (fst (MPIBarrier_run 1000 1000 \<lparr>step = 1 :: 32 word\<rparr>))) = 1001"
    using MPIBarrier_once_per_period [of 1000 "\<lparr>step = 1 :: 32 word\<rparr>"] by simp
  show ?thesis using a b c d by simp
qed

lemma MPIRecv_new_first_call: "first_call (MPIRecv_new s t content junk req0)"
  by (simp add: MPIRecv_new_def)

lemma MPIRecv_call_first:
  assumes "first_call r"
  shows "MPIRecv_call r content l =
           Some (r\<lparr>first_call := False, request := posted l\<rparr>, content,
                 l\<lparr>posted := Suc (posted l)\<rparr>, [Irecv_call])"
  using assms by (simp add: MPIRecv_call_def MPI_Irecv_def)

lemma MPIRecv_call_later:
  assumes "\<not> first_call r"
  shows "MPIRecv_call r content l =
           (if request r < length (sent l)
            then Some (r\<lparr>buffer := memcpy (buffer r) (sent l ! request r) (op_size r),
                         request := posted l\<rparr>,
                       memcpy content (memcpy (buffer r) (sent l ! request r) (op_size r)) (op_size r),
                       l\<lparr>posted := Suc (posted l)\<rparr>, [Wait_call, Irecv_call])
            else None)"
  using assms by (simp add: MPIRecv_call_def MPI_Irecv_def MPI_Wait_recv_def Let_def)

text \<open>
  Claim C7. A new \<^verbatim>\<open>MPIRecv\<close> has \<open>first_call\<close> set. A call with the flag set makes no
  \<^verbatim>\<open>MPI_Wait\<close>, never blocks, leaves the content region (and the buffer) as they were
  and only clears the flag and posts the first receive, whatever the peer has already sent.
  A call with the flag cleared waits first, and is the only one that copies the buffer into
  the content region.
\<close>

theorem MPIRecv_first_call_no_wait:
  "first_call (MPIRecv_new s t c junk req0) \<and>
   (first_call r \<longrightarrow>
      MPIRecv_call r content l =
        Some (r\<lparr>first_call := False, request := posted l\<rparr>, content,
              l\<lparr>posted := Suc (posted l)\<rparr>, [Irecv_call])) \<and>
   (\<not> first_call r \<longrightarrow>
      MPIRecv_call r content l =
        (if request r < length (sent l)
         then Some (r\<lparr>buffer := memcpy (buffer r) (sent l ! request r) (op_size r),
                      request := posted l\<rparr>,
                    memcpy content (memcpy (buffer r) (sent l ! request r) (op_size r)) (op_size r),
                    l\<lparr>posted := Suc (posted l)\<rparr>, [Wait_call, Irecv_call])
         else None))"
  by (simp add: MPIRecv_new_first_call MPIRecv_call_first MPIRecv_call_later)

text \<open>
  The first call of a new receive on a link that already holds the peer's message 42 keeps
  the content 0; the second call delivers 42.
\<close>

theorem MPIRecv_first_call_no_wait_witness:
  "MPIRecv_call (MPIRecv_new 0 7 [0::int] (\<lambda>i. 99) 5) [0] \<lparr>sent = [[42]], posted = 0\<rparr> =
     Some (\<lparr>tag = 7, op_size = 1, buffer = [99], request = 0, first_call = False, src = 0\<rparr>,
           [0], \<lparr>sent = [[42]], posted = 1\<rparr>, [Irecv_call]) \<and>
   MPIRecv_call \<lparr>tag = 7, op_size = 1, buffer = [99], request = 0, first_call = False, src = 0\<rparr>
       [0] \<lparr>sent = [[42::int]], posted = 1\<rparr> =
     Some (\<lparr>tag = 7, op_size = 1, buffer = [42], request = 1, first_call = False, src = 0\<rparr>,
           [42], \<lparr>sent = [[42]], posted = 2\<rparr>, [Wait_call, Irecv_call])"
proof -
  let ?r1 = "\<lparr>tag = 7, op_size = 1, buffer = [99::int], request = 0, first_call = False, src = 0\<rparr>"
  have a: "MPIRecv_call (MPIRecv_new 0 7 [0::int] (\<lambda>i. 99) 5) [0] \<lparr>sent = [[42]], posted = 0\<rparr> =
     Some (?r1, [0], \<lparr>sent = [[42]], posted = 1\<rparr>, [Irecv_call])"
    using MPIRecv_first_call_no_wait [where c = "[0::int]" and r = "MPIRecv_new 0 7 [0::int] (\<lambda>i. 99) 5"
        and content = "[0]" and l = "\<lparr>sent = [[42]], posted = 0\<rparr>"]
    by (simp add: MPIRecv_new_def)
  have b: "MPIRecv_call ?r1 [0] \<lparr>sent = [[42::int]], posted = 1\<rparr> =
     Some (\<lparr>tag = 7, op_size = 1, buffer = [42], request = 1, first_call = False, src = 0\<rparr>,
           [42], \<lparr>sent = [[42]], posted = 2\<rparr>, [Wait_call, Irecv_call])"
    using MPIRecv_first_call_no_wait [where c = "[0::int]" and r = ?r1
        and content = "[0]" and l = "\<lparr>sent = [[42]], posted = 1\<rparr>"]
    by (simp add: memcpy_def numeral_2_eq_2)
  show ?thesis using a b by (rule conjI)
qed

subsection \<open>One step of latency on a link\<close>

lemma memcpy_whole: "length source = n \<Longrightarrow> length dest = n \<Longrightarrow> memcpy dest source n = source"
  by (simp add: memcpy_def)

lemma take_memcpy: "length source = n \<Longrightarrow> take n (memcpy dest source n) = source"
  by (simp add: memcpy_def)

lemma pair_inv_new:
  assumes "length c_send = length c_recv"
  shows "pair_inv w (length c_recv) c_recv (pair_new s d t c_send c_recv junk_s junk_r req_s req_r)"
  using assms by (simp add: pair_inv_def pair_new_def MPISend_new_def MPIRecv_new_def)

lemma pair_inv_sender_step:
  assumes "pair_inv w n c0 st" and "\<forall>k. length (w k) = n"
  shows "pair_inv w n c0 (sender_step w st)"
  using assms
  by (simp add: pair_inv_def sender_step_def MPISend_call_def MPI_Isend_def Let_def take_memcpy)

lemma receiver_step_blocked:
  assumes "pair_inv w n c0 st"
  shows "receiver_step st = None \<longleftrightarrow> recv_steps st = Suc (send_steps st)"
  using assms
  by (auto simp: pair_inv_def receiver_step_def MPIRecv_call_def MPI_Wait_recv_def MPI_Irecv_def
      Let_def split: option.splits)

lemma pair_inv_receiver_step:
  assumes "pair_inv w n c0 st" and "\<forall>k. length (w k) = n" and "length c0 = n"
    and "receiver_step st = Some st'"
  shows "pair_inv w n c0 st'"
proof (cases "recv_steps st = 0")
  case True
  then show ?thesis
    using assms
    by (auto simp: pair_inv_def receiver_step_def MPIRecv_call_def MPI_Irecv_def Let_def)
next
  case False
  then obtain k where k: "recv_steps st = Suc k" by (cases "recv_steps st") auto
  have nf: "\<not> first_call (recv_op st)" and rq: "request (recv_op st) = k"
    and le: "k \<le> send_steps st"
    using assms(1) k by (auto simp: pair_inv_def)
  have lt: "k < send_steps st"
    using receiver_step_blocked [OF assms(1)] assms(4) k le by (cases "k = send_steps st") auto
  have msg: "sent (wire st) ! k = w k"
    using assms(1) lt by (simp add: pair_inv_def)
  have len: "length (sent (wire st)) = send_steps st"
    using assms(1) by (simp add: pair_inv_def)
  have buf: "memcpy (buffer (recv_op st)) (w k) n = w k"
    using assms(1,2) by (intro memcpy_whole) (simp_all add: pair_inv_def)
  have cont: "length (recv_content st) = n"
    using assms(1,2,3) by (simp add: pair_inv_def)
  have cpy: "memcpy (recv_content st) (w k) n = w k"
    using assms(2) cont by (intro memcpy_whole) simp_all
  have sz: "op_size (recv_op st) = n"
    using assms(1) by (simp add: pair_inv_def)
  have st': "st' = st\<lparr>recv_op := (recv_op st)\<lparr>buffer := w k, request := posted (wire st)\<rparr>,
                      recv_content := w k, wire := (wire st)\<lparr>posted := Suc (posted (wire st))\<rparr>,
                      recv_steps := Suc (recv_steps st), presented := presented st @ [w k]\<rparr>"
    using assms(4) nf rq lt len msg
    by (simp add: receiver_step_def MPIRecv_call_def MPI_Wait_recv_def MPI_Irecv_def Let_def
        sz buf cpy)
  show ?thesis
    unfolding st' using assms(1,2) k lt
    by (simp add: pair_inv_def)
qed

lemma pair_inv_run_pair:
  assumes "pair_inv w n c0 st" and "\<forall>k. length (w k) = n" and "length c0 = n"
  shows "pair_inv w n c0 (run_pair w sch st)"
  using assms(1)
proof (induction sch arbitrary: st)
  case Nil
  then show ?case by simp
next
  case (Cons p ps)
  show ?case
  proof (cases p)
    case Sender
    then show ?thesis
      using Cons.IH [OF pair_inv_sender_step [OF Cons.prems assms(2)]] by simp
  next
    case Receiver
    show ?thesis
    proof (cases "receiver_step st")
      case None
      then show ?thesis using Receiver Cons by simp
    next
      case (Some st')
      then show ?thesis
        using Receiver Cons.IH [OF pair_inv_receiver_step [OF Cons.prems assms(2,3) Some]] by simp
    qed
  qed
qed

text \<open>
  Claim C1. A new matched pair (equal element counts, writers that keep the size of the
  content region), run under any interleaving of the two processes: in its step 0 the
  receiving chunk's readers find the initial content of the receive's region, and in every
  later step \<open>k\<close> they find what the send's region held when the \<^verbatim>\<open>MPISend\<close> ran in step
  \<open>k - 1\<close>. So what is written in step \<open>s\<close> is read in step \<open>s + 1\<close> and not in step \<open>s\<close>.
  The receiver is blocked only while the sender has not yet run the previous step.
\<close>

theorem MPI_link_one_step_latency:
  assumes "length c_send = length c_recv" and "\<forall>k. length (w k) = length c_send"
  shows "presented (run_pair w sch (pair_new s d t c_send c_recv junk_s junk_r req_s req_r)) =
           map (\<lambda>k. if k = 0 then c_recv else w (k - 1))
             [0..<recv_steps (run_pair w sch (pair_new s d t c_send c_recv junk_s junk_r req_s req_r))] \<and>
         (receiver_step (run_pair w sch (pair_new s d t c_send c_recv junk_s junk_r req_s req_r)) = None
            \<longleftrightarrow> recv_steps (run_pair w sch (pair_new s d t c_send c_recv junk_s junk_r req_s req_r)) =
                 Suc (send_steps (run_pair w sch (pair_new s d t c_send c_recv junk_s junk_r req_s req_r))))"
proof -
  let ?st = "run_pair w sch (pair_new s d t c_send c_recv junk_s junk_r req_s req_r)"
  have "pair_inv w (length c_recv) c_recv ?st"
    using assms by (intro pair_inv_run_pair pair_inv_new) simp_all
  then show ?thesis
    using receiver_step_blocked [of w "length c_recv" c_recv ?st]
    by (simp add: pair_inv_def)
qed

text \<open>
  The sender writes 10, 11, 12 in its steps 0, 1, 2; the receiver, which starts from 0 and
  is blocked once, reads 0, 10, 11, 12 in its steps 0 to 3.
\<close>

theorem MPI_link_one_step_latency_witness:
  "presented (run_pair (\<lambda>k. [10 + int k])
       [Receiver, Receiver, Sender, Sender, Receiver, Receiver, Sender, Receiver]
       (pair_new 0 1 7 [1] [0] (\<lambda>i. 0) (\<lambda>i. 0) 0 0)) = [[0], [10], [11], [12]]"
proof -
  let ?st = "run_pair (\<lambda>k. [10 + int k])
       [Receiver, Receiver, Sender, Sender, Receiver, Receiver, Sender, Receiver]
       (pair_new 0 1 7 [1] [0] (\<lambda>i. 0) (\<lambda>i. 0) 0 0)"
  have steps: "recv_steps ?st = 4"
    by (simp add: pair_new_def MPISend_new_def MPIRecv_new_def sender_step_def receiver_step_def
        MPISend_call_def MPIRecv_call_def MPI_Isend_def MPI_Irecv_def MPI_Wait_recv_def
        memcpy_def Let_def)
  have "[0..<4] = [0, 1, 2, 3::nat]"
    by (simp add: upt_rec)
  then show ?thesis
    using MPI_link_one_step_latency [of "[1::int]" "[0]" "\<lambda>k. [10 + int k]"
        "[Receiver, Receiver, Sender, Sender, Receiver, Receiver, Sender, Receiver]" 0 1 7
        "\<lambda>i. 0" "\<lambda>i. 0" 0 0]
      steps
    by simp
qed

section \<open>Properties of the chunk\<close>

subsection \<open>The order of the operators\<close>

lemma place_op_insort_key: "place_op op xs = insort_key index op xs"
  by (induction xs) (auto simp: compare_op_ptr_def get_index_def)

lemma finalize_build_sort_key: "operators (finalize_build c) = sort_key index (operators c)"
  by (simp add: finalize_build_def sort_key_def place_op_insort_key [abs_def])

lemma operators_add_ops:
  "operators (foldl (\<lambda>c op. add_op op c) c ops) = operators c @ ops"
  by (induction ops arbitrary: c) (simp_all add: add_op_def)

lemma operators_chunk_step: "operators (chunk_step c) = operators c"
  by (simp add: chunk_step_def Let_def flush_probes_def)

lemma operators_run_n_steps: "operators (run_n_steps n c) = operators c"
  by (induction n arbitrary: c) (simp_all add: operators_chunk_step)

lemma signals_chunk_step: "signals (chunk_step c) = fold call (operators c) (signals c)"
  by (simp add: chunk_step_def Let_def flush_probes_def invoke_operators_def)

text \<open>
  Claim C3. After \<^verbatim>\<open>finalize_build\<close>, in every step of the step loop, the operator list is
  sorted by index in ascending order, holds the operators that were added, and lists the
  operators of any one index in the order in which they were added; a step invokes the
  operators in the order of this list.
\<close>

theorem finalize_build_stable_sort:
  "sorted (map index (operators (run_n_steps n (finalize_build c)))) \<and>
   mset (operators (run_n_steps n (finalize_build c))) = mset (operators c) \<and>
   (\<forall>k. filter (\<lambda>op. index op = k) (operators (run_n_steps n (finalize_build c))) =
        filter (\<lambda>op. index op = k) (operators c)) \<and>
   signals (chunk_step (run_n_steps n (finalize_build c))) =
     fold call (operators (finalize_build c)) (signals (run_n_steps n (finalize_build c)))"
  by (simp add: operators_run_n_steps signals_chunk_step finalize_build_sort_key sort_key_stable)


text \<open>
  Operators added with the indices 2, 1, 2, 1 run in the order second, fourth, first, third.
\<close>

theorem finalize_build_stable_sort_witness:
  "map index (operators (run_n_steps 2 (finalize_build letter_chunk))) = [1, 1, 2, 2] \<and>
   signals (chunk_step (finalize_build letter_chunk)) = ''bdac''"
proof -
  let ?sorted = "[letter_ops ! 1, letter_ops ! 3, letter_ops ! 0, letter_ops ! 2]"
  have ops: "operators (finalize_build letter_chunk) = ?sorted"
    by (simp add: letter_chunk_def letter_ops_def finalize_build_def add_op_def
        compare_op_ptr_def get_index_def)
  have sig: "signals (finalize_build letter_chunk) = []"
    by (simp add: letter_chunk_def letter_ops_def finalize_build_def add_op_def)
  have idx: "map index ?sorted = [1, 1, 2, 2]"
    by (simp add: letter_ops_def)
  have run: "fold call ?sorted [] = ''bdac''"
    by (simp add: letter_ops_def)
  have "signals (chunk_step (finalize_build letter_chunk)) =
          fold call (operators (finalize_build letter_chunk)) (signals (finalize_build letter_chunk))"
    using finalize_build_stable_sort [of 0 letter_chunk] by simp
  then have "signals (chunk_step (finalize_build letter_chunk)) = ''bdac''"
    by (simp only: ops sig run)
  moreover have "map index (operators (run_n_steps 2 (finalize_build letter_chunk))) = [1, 1, 2, 2]"
    by (simp only: operators_run_n_steps ops idx)
  ultimately show ?thesis
    by simp
qed

subsection \<open>What a probe collects\<close>

lemma collected_flush_probes: "collected k (flush_probes c) = collected k c"
  by (simp add: collected_def flush_probes_def clear_def split: option.splits)

lemma probes_flush_probes:
  "probes c k = Some p \<Longrightarrow> probes (flush_probes c) k = Some (clear p)"
  by (simp add: flush_probes_def)

lemma chunk_step_fields:
  "step_counter (chunk_step c) = step_counter c + 1"
  "signals (chunk_step c) = invoke_operators (operators c) (signals c)"
  "operators (chunk_step c) = operators c"
  by (simp_all add: chunk_step_def Let_def flush_probes_def)

lemma chunk_step_probe:
  assumes "probes c k = Some p"
  shows "\<exists>p'. probes (chunk_step c) k = Some p' \<and> target p' = target p \<and> period p' = period p"
  using assms by (simp add: chunk_step_def Let_def flush_probes_def sample_def clear_def)

lemma chunk_step_collected:
  assumes "probes c k = Some p"
  shows "collected k (chunk_step c) =
           collected k c @
           (if step_counter c smod period p = 0
            then [target p (invoke_operators (operators c) (signals c))] else [])"
proof -
  let ?store = "invoke_operators (operators c) (signals c)"
  let ?c1 = "c\<lparr>signals := ?store,
               probes := (\<lambda>k. map_option (sample (step_counter c) ?store) (probes c k)),
               time := time c + dt c\<rparr>"
  have c1: "collected k ?c1 =
              collected k c @ (if step_counter c smod period p = 0 then [target p ?store] else [])"
    using assms by (simp add: collected_def sample_def)
  have "collected k (chunk_step c) =
          collected k (if (step_counter c + 1) smod FLUSH_PROBES_EVERY = 0 then flush_probes ?c1 else ?c1)"
    by (simp add: chunk_step_def Let_def collected_def)
  also have "\<dots> = collected k ?c1"
    by (simp add: collected_flush_probes)
  finally show ?thesis using c1 by simp
qed

lemma store_after_shift:
  "store_after ops (invoke_operators ops store) s = store_after ops store (Suc s)"
  by (induction s) simp_all

lemma map_filter_upt_Suc:
  "map f (filter P [0..<Suc n]) =
     (if P 0 then [f 0] else []) @ map (\<lambda>s. f (Suc s)) (filter (\<lambda>s. P (Suc s)) [0..<n])"
proof -
  have "[0..<Suc n] = 0 # map Suc [0..<n]"
    by (simp add: upt_conv_Cons map_Suc_upt del: upt_Suc)
  then show ?thesis
    by (simp add: filter_map comp_def del: upt_Suc)
qed

lemma run_n_steps_collected:
  assumes "probes c k = Some p" and "0 < period p" and "0 \<le> step_counter c"
  shows "collected k (run_n_steps n c) =
           collected k c @
           map (\<lambda>s. target p (store_after (operators c) (signals c) s))
             (filter (\<lambda>s. period p dvd step_counter c + int s) [0..<n])"
  using assms
proof (induction n arbitrary: c p)
  case 0
  then show ?case by simp
next
  case (Suc n)
  obtain p' where p': "probes (chunk_step c) k = Some p'" "target p' = target p" "period p' = period p"
    using chunk_step_probe [OF Suc.prems(1)] by blast
  have "collected k (run_n_steps (Suc n) c) = collected k (run_n_steps n (chunk_step c))"
    by simp
  also have "\<dots> = collected k (chunk_step c) @
      map (\<lambda>s. target p' (store_after (operators (chunk_step c)) (signals (chunk_step c)) s))
        (filter (\<lambda>s. period p' dvd step_counter (chunk_step c) + int s) [0..<n])"
    using Suc.prems p' by (intro Suc.IH) (simp_all add: chunk_step_fields)
  also have "\<dots> = collected k c @
      (if period p dvd step_counter c then [target p (store_after (operators c) (signals c) 0)] else []) @
      map (\<lambda>s. target p (store_after (operators c) (signals c) (Suc s)))
        (filter (\<lambda>s. period p dvd step_counter c + int (Suc s)) [0..<n])"
    using Suc.prems p'
    by (simp add: chunk_step_collected [OF Suc.prems(1)] chunk_step_fields store_after_shift
        smod_zero_iff_dvd ac_simps)
  also have "\<dots> = collected k c @
      map (\<lambda>s. target p (store_after (operators c) (signals c) s))
        (filter (\<lambda>s. period p dvd step_counter c + int s) [0..<Suc n])"
    unfolding map_filter_upt_Suc [where n = n] by simp
  finally show ?case .
qed

lemma length_filter_dvd_upt:
  fixes p :: nat
  assumes "0 < p"
  shows "length (filter (\<lambda>s. p dvd s) [0..<n]) = (n + p - 1) div p"
proof (induction n)
  case 0
  then show ?case using assms by simp
next
  case (Suc n)
  have "(Suc n + p - 1) div p = Suc (n + p - 1) div p"
    using assms by simp
  also have "\<dots> = (n + p - 1) div p + (if p dvd n then 1 else 0)"
  proof -
    have "(p dvd Suc (n + p - 1)) = (p dvd n)"
      using assms by (metis Suc_diff_1 add_Suc_right add_gr_0 dvd_add_triv_right_iff)
    then show ?thesis
      by (simp add: div_Suc mod_eq_0_iff_dvd)
  qed
  finally show ?case using Suc.IH by simp
qed

lemma ceil_div_nat:
  fixes p :: nat
  assumes "0 < p"
  shows "\<lceil>real n / real p\<rceil> = int ((n + p - 1) div p)"
proof -
  define m where "m = (n + p - 1) div p"
  have "m * p \<le> n + p - 1"
    by (simp add: m_def)
  then have "m * p + 1 \<le> n + p"
    using assms by linarith
  then have "real (m * p + 1) \<le> real (n + p)"
    by (rule iffD2 [OF of_nat_le_iff])
  then have lo: "real m * real p \<le> real n + real p - 1"
    by simp
  have "n + p - 1 < p + m * p"
    using assms unfolding m_def by (intro dividend_less_div_times)
  then have "n \<le> m * p"
    using assms by linarith
  then have "real n \<le> real (m * p)"
    by (rule iffD2 [OF of_nat_le_iff])
  then have hi: "real n \<le> real m * real p"
    by simp
  have pp: "0 < real p" using assms by simp
  have "real n / real p \<le> real m"
    using hi pp by (simp add: pos_divide_le_eq)
  moreover have "real m - 1 < real n / real p"
  proof -
    have "(real m - 1) * real p < real n"
      using lo by (simp add: algebra_simps)
    then show ?thesis
      using pp by (simp only: pos_less_divide_eq)
  qed
  ultimately have "\<lceil>real n / real p\<rceil> = int m"
    by (intro ceiling_unique) simp_all
  then show ?thesis by (simp add: m_def)
qed

text \<open>
  Claim C8. A probe of period \<open>p \<ge> 1\<close> that has collected nothing, in a chunk whose step
  counter is 0: over a run of \<open>n\<close> steps it collects (in the log sink and its buffer
  together) exactly the target view at the end of each step \<open>s < n\<close> with \<open>s mod p = 0\<close>,
  in order, which are \<open>\<lceil>n / p\<rceil>\<close> samples.
\<close>

theorem probe_samples_every_period:
  assumes "probes c k = Some p" and "1 \<le> period p" and "step_counter c = 0"
    and "collected k c = []"
  shows "collected k (run_n_steps n c) =
           map (\<lambda>s. target p (store_after (operators c) (signals c) s))
             (filter (\<lambda>s. int s mod period p = 0) [0..<n]) \<and>
         int (length (collected k (run_n_steps n c))) = \<lceil>real n / real_of_int (period p)\<rceil>"
proof -
  define P where "P = nat (period p)"
  have P: "0 < P" "period p = int P"
    using assms(2) by (simp_all add: P_def)
  have dvd: "(period p dvd int s) = (P dvd s)" for s
    unfolding P(2) by (rule int_dvd_int_iff)
  have col: "collected k (run_n_steps n c) =
           map (\<lambda>s. target p (store_after (operators c) (signals c) s))
             (filter (\<lambda>s. P dvd s) [0..<n])"
    using run_n_steps_collected [of c k p n] assms by (simp add: dvd)
  have "length (collected k (run_n_steps n c)) = (n + P - 1) div P"
    unfolding col using P(1) by (simp add: length_filter_dvd_upt)
  then have "int (length (collected k (run_n_steps n c))) = \<lceil>real n / real P\<rceil>"
    using P(1) by (simp add: ceil_div_nat)
  moreover have "real P = real_of_int (period p)"
    using P(2) by simp
  moreover have "(int s mod period p = 0) = (P dvd s)" for s
    by (simp add: mod_eq_0_iff_dvd dvd)
  ultimately show ?thesis
    using col by simp
qed

text \<open>
  Period 3, seven steps, a counter incremented in every step: the probe samples in the
  steps 0, 3 and 6, where the counter is 1, 4 and 7.
\<close>

theorem probe_samples_every_period_witness:
  "collected 5 (run_n_steps 7 counter_chunk) = [[1], [4], [7]] \<and>
   int (length (collected 5 (run_n_steps 7 counter_chunk))) = \<lceil>real 7 / real_of_int 3\<rceil>"
proof -
  let ?p = "\<lparr>target = (\<lambda>s. [real s]), period = 3, probe_buffer = []\<rparr> :: (nat, real) Probe"
  have a: "probes counter_chunk 5 = Some ?p" "1 \<le> period ?p" "step_counter counter_chunk = 0"
    "collected 5 counter_chunk = []"
    by (simp_all add: counter_chunk_def collected_def)
  have f: "filter (\<lambda>s. int s mod 3 = 0) [0..<7] = [0, 3, 6]"
    by (simp add: upt_rec)
  have s: "map (\<lambda>s. target ?p (store_after (operators counter_chunk) (signals counter_chunk) s)) [0, 3, 6]
            = [[1], [4], [7]]"
    by (simp add: counter_chunk_def invoke_operators_def eval_nat_numeral)
  show ?thesis
    using probe_samples_every_period [OF a, of 7] f s by simp
qed

section \<open>Properties of the build loop\<close>

lemmas flag_defs = add_signal_flag_def add_op_flag_def add_probe_flag_def stop_flag_def

lemma worker_loop_Nil: "worker_loop chunk [] = Blocked"
  by (subst worker_loop.simps) simp

lemma worker_loop_encode: "worker_loop chunk (encode bc @ ms) = worker_loop (chunk @ [bc]) ms"
  by (cases bc) (subst worker_loop.simps, simp add: flag_defs)+

lemma worker_loop_stop: "worker_loop chunk (Int_msg stop_flag # ms) = Built chunk ms"
  by (subst worker_loop.simps) (simp add: flag_defs)

lemma worker_loop_invalid:
  assumes "f \<notin> {add_signal_flag, add_op_flag, add_probe_flag, stop_flag}"
  shows "worker_loop chunk (Int_msg f # ms) = Raised Invalid_flag"
  using assms by (subst worker_loop.simps) simp

lemma worker_loop_encoded:
  "worker_loop chunk (concat (map encode calls) @ ms) = worker_loop (chunk @ calls) ms"
  by (induction calls arbitrary: chunk) (simp_all add: worker_loop_encode)

lemma recv_int_Got: "recv_int ms = Got i ms' \<longleftrightarrow> ms = Int_msg i # ms'"
  by (induction ms rule: recv_int.induct) auto

lemma recv_key_Got: "recv_key ms = Got k ms' \<longleftrightarrow> ms = Key_msg k # ms'"
  by (induction ms rule: recv_key.induct) auto

lemma recv_string_Got: "recv_string ms = Got s ms' \<longleftrightarrow> ms = String_msg s # ms'"
  by (induction ms rule: recv_string.induct) auto

lemma recv_matrix_Got: "recv_matrix ms = Got d ms' \<longleftrightarrow> ms = Matrix_msg d # ms'"
  by (induction ms rule: recv_matrix.induct) auto

lemmas recv_Got = recv_int_Got recv_key_Got recv_string_Got recv_matrix_Got

lemma worker_loop_Built_cases:
  assumes "worker_loop chunk ms = Built chunk' rest"
  shows "(ms = Int_msg stop_flag # rest \<and> chunk' = chunk) \<or>
         (\<exists>bc ms'. ms = encode bc @ ms' \<and> worker_loop (chunk @ [bc]) ms' = Built chunk' rest)"
proof -
  have "\<exists>bc ms'. ms = encode bc @ ms' \<and> worker_loop (chunk @ [bc]) ms' = Built chunk' rest"
    if "ms = encode bc @ ms'" and "worker_loop (chunk @ [bc]) ms' = Built chunk' rest" for bc ms'
    using that by blast
  note ex = this
  show ?thesis
    using assms unfolding worker_loop.simps [of chunk ms]
    by (auto split: received.splits if_splits simp: recv_Got
        intro: ex [of "Add_base_signal k l d" for k l d] ex [of "Add_op s" for s]
               ex [of "Add_probe k s p" for k s p])
qed

lemma worker_loop_Built_only_by_stop:
  "worker_loop chunk ms = Built chunk' rest \<Longrightarrow>
     \<exists>calls. ms = concat (map encode calls) @ Int_msg stop_flag # rest \<and> chunk' = chunk @ calls"
proof (induction ms arbitrary: chunk rule: length_induct)
  case (1 ms)
  from worker_loop_Built_cases [OF "1.prems"] show ?case
  proof (elim disjE conjE exE)
    assume "ms = Int_msg stop_flag # rest" and "chunk' = chunk"
    then have "ms = concat (map encode []) @ Int_msg stop_flag # rest \<and> chunk' = chunk @ []"
      by simp
    then show ?thesis by blast
  next
    fix bc ms'
    assume ms: "ms = encode bc @ ms'" and run: "worker_loop (chunk @ [bc]) ms' = Built chunk' rest"
    have "length ms' < length ms"
      unfolding ms by (cases bc) simp_all
    then obtain calls where "ms' = concat (map encode calls) @ Int_msg stop_flag # rest"
        and "chunk' = (chunk @ [bc]) @ calls"
      using "1.IH" run by blast
    then have "ms = concat (map encode (bc # calls)) @ Int_msg stop_flag # rest \<and>
               chunk' = chunk @ (bc # calls)"
      using ms by simp
    then show ?thesis by blast
  qed
qed

text \<open>
  Claim C9. The loop is left through \<^verbatim>\<open>break\<close> exactly when the messages read so far are
  the records of some calls followed by the stop flag, and then those calls, in order, have
  been made on the chunk; after records without a stop flag the worker waits for the next
  message and the loop goes on; a flag other than the four known ones after any records
  raises the runtime error.
\<close>

theorem worker_loop_until_stop:
  "(worker_loop chunk ms = Built chunk' rest \<longleftrightarrow>
      (\<exists>calls. ms = concat (map encode calls) @ Int_msg stop_flag # rest \<and> chunk' = chunk @ calls)) \<and>
   worker_loop chunk (concat (map encode calls)) = Blocked \<and>
   (f \<notin> {add_signal_flag, add_op_flag, add_probe_flag, stop_flag} \<longrightarrow>
      worker_loop chunk (concat (map encode calls) @ Int_msg f # rest) = Raised Invalid_flag)"
proof -
  have "worker_loop chunk ms = Built chunk' rest"
    if "ms = concat (map encode cs) @ Int_msg stop_flag # rest" and "chunk' = chunk @ cs" for cs
    using that by (simp add: worker_loop_encoded worker_loop_stop)
  then have "worker_loop chunk ms = Built chunk' rest \<longleftrightarrow>
      (\<exists>calls. ms = concat (map encode calls) @ Int_msg stop_flag # rest \<and> chunk' = chunk @ calls)"
    using worker_loop_Built_only_by_stop [of chunk ms chunk' rest] by blast
  moreover have "worker_loop chunk (concat (map encode calls)) = Blocked"
    using worker_loop_encoded [of chunk calls "[]"] by (simp add: worker_loop_Nil)
  moreover have "worker_loop chunk (concat (map encode calls) @ Int_msg f # rest) = Raised Invalid_flag"
    if "f \<notin> {add_signal_flag, add_op_flag, add_probe_flag, stop_flag}"
    using that by (simp add: worker_loop_encoded worker_loop_invalid)
  ultimately show ?thesis by simp
qed


text \<open>
  A signal, an operator and a probe record: followed by the stop flag 4 they build the
  chunk and leave the next message unread; followed by nothing the worker waits; followed
  by the flag 0 the worker raises.
\<close>

theorem worker_loop_until_stop_witness:
  "worker_loop []
     [Int_msg 1, Key_msg 1, String_msg ''a'', Matrix_msg [[0]], Int_msg 2, String_msg ''Reset'',
      Int_msg 3, Key_msg 2, String_msg ''a'', Int_msg 1, Int_msg 4, Int_msg 9] =
     Built three_calls [Int_msg 9] \<and>
   worker_loop []
     [Int_msg 1, Key_msg 1, String_msg ''a'', Matrix_msg [[0]], Int_msg 2, String_msg ''Reset'',
      Int_msg 3, Key_msg 2, String_msg ''a'', Int_msg 1] = (Blocked :: real list list worker_result) \<and>
   worker_loop []
     [Int_msg 1, Key_msg 1, String_msg ''a'', Matrix_msg [[0]], Int_msg 2, String_msg ''Reset'',
      Int_msg 3, Key_msg 2, String_msg ''a'', Int_msg 1, Int_msg 0] =
     (Raised Invalid_flag :: real list list worker_result)"
proof -
  have enc: "concat (map encode three_calls) =
      [Int_msg 1, Key_msg 1, String_msg ''a'', Matrix_msg [[0]], Int_msg 2, String_msg ''Reset'',
       Int_msg 3, Key_msg 2, String_msg ''a'', Int_msg 1]"
    by (simp add: three_calls_def flag_defs)
  have "worker_loop [] (concat (map encode three_calls) @ Int_msg stop_flag # [Int_msg 9]) =
          Built three_calls [Int_msg 9]"
    using worker_loop_until_stop [where chunk = "[]" and chunk' = three_calls and rest = "[Int_msg 9]"
        and ms = "concat (map encode three_calls) @ Int_msg stop_flag # [Int_msg 9]"]
    by auto
  moreover have "worker_loop [] (concat (map encode three_calls)) = Blocked"
    using worker_loop_until_stop [where chunk = "[]" and calls = three_calls] by simp
  moreover have "worker_loop [] (concat (map encode three_calls) @ Int_msg 0 # []) = Raised Invalid_flag"
    using worker_loop_until_stop [where chunk = "[]" and calls = three_calls and f = 0 and rest = "[]"]
    by (simp add: flag_defs)
  ultimately show ?thesis
    by (simp add: enc stop_flag_def)
qed

section \<open>Properties of the Python bridge\<close>

lemma write_output_items:
  assumes "\<forall>k<length xs. py_getitem obj k = Inr (PyFloat (xs ! k))"
    and "i \<le> length out" and "length out \<le> length xs"
  shows "write_output fl obj i out = Inr (take i out @ map fl (take (length out - i) (drop i xs)))"
  using assms(2,3)
proof (induction "length out - i" arbitrary: i out)
  case 0
  then show ?case by (subst write_output.simps) simp
next
  case (Suc m)
  then have i: "i < length out" "i < length xs" by simp_all
  have m: "m = length (out[i := fl (xs ! i)]) - Suc i"
    using Suc.hyps(2) by simp
  have rec: "write_output fl obj (Suc i) (out[i := fl (xs ! i)]) =
        Inr (take (Suc i) (out[i := fl (xs ! i)]) @
             map fl (take (length (out[i := fl (xs ! i)]) - Suc i) (drop (Suc i) xs)))"
    using i Suc.prems by (intro Suc.hyps(1) [OF m]) simp_all
  have tk: "take (Suc i) (out[i := fl (xs ! i)]) = take i out @ [fl (xs ! i)]"
    using i by (simp add: take_Suc_conv_app_nth)
  have dr: "take (length out - i) (drop i xs) = xs ! i # take (length out - Suc i) (drop (Suc i) xs)"
    using i by (metis Cons_nth_drop_Suc Suc_diff_Suc take_Suc_Cons)
  show ?case
    using i assms(1) by (subst write_output.simps) (simp add: rec tk dr)
qed

text \<open>
  A sequence of numbers shorter than the output: the elements it has are stored, then the
  subscript past its end raises.
\<close>

lemma write_output_short:
  assumes "\<forall>k<length xs. py_getitem obj k = Inr (PyFloat (xs ! k))"
    and "py_getitem obj (length xs) = Inl IndexError"
    and "i \<le> length xs" and "length xs < length out"
  shows "write_output fl obj i out =
           Inl (IndexError, take i out @ map fl (drop i xs) @ drop (length xs) out)"
  using assms(3,4)
proof (induction "length xs - i" arbitrary: i out)
  case 0
  then have "i = length xs" by simp
  then show ?case
    using "0.prems" assms(2) by (subst write_output.simps) simp
next
  case (Suc m)
  then have i: "i < length xs" "i < length out" by simp_all
  have m: "m = length xs - Suc i"
    using Suc.hyps(2) by simp
  have rec: "write_output fl obj (Suc i) (out[i := fl (xs ! i)]) =
        Inl (IndexError, take (Suc i) (out[i := fl (xs ! i)]) @ map fl (drop (Suc i) xs) @
               drop (length xs) (out[i := fl (xs ! i)]))"
    using i Suc.prems by (intro Suc.hyps(1) [OF m]) simp_all
  have tk: "take (Suc i) (out[i := fl (xs ! i)]) = take i out @ [fl (xs ! i)]"
    using i by (simp add: take_Suc_conv_app_nth)
  have dr: "drop i xs = xs ! i # drop (Suc i) xs"
    using i by (simp add: Cons_nth_drop_Suc)
  have dl: "drop (length xs) (out[i := fl (xs ! i)]) = drop (length xs) out"
    using i by simp
  show ?case
    using i assms(1) by (subst write_output.simps) (simp add: rec tk dr dl)
qed

text \<open>
  Claim C6, as the code has it. When the callback returns normally and the output vector
  is not empty: a number is written to element 0 and the other elements keep their values,
  whatever the size of the output; a list or array of numbers with at least as many
  elements as the output is cut to the size of the output; a list or array of numbers with
  fewer elements than the output makes the operator raise the \<^verbatim>\<open>IndexError\<close> of the
  subscript past its end, after its elements have been stored in the leading elements of
  the output.
\<close>

theorem PyFunc_accepts_other_shapes:
  assumes "py_fn f (PyFunc_args f t input) = Inr obj" and "out \<noteq> []"
  shows "(obj = PyFloat x \<longrightarrow> PyFunc_call fl f t input out = Inr (out[0 := fl x])) \<and>
         ((obj = PyList (map PyFloat xs) \<or> obj = PyArray xs) \<and> length out \<le> length xs \<longrightarrow>
            PyFunc_call fl f t input out = Inr (map fl (take (length out) xs))) \<and>
         ((obj = PyList (map PyFloat xs) \<or> obj = PyArray xs) \<and> length xs < length out \<longrightarrow>
            PyFunc_call fl f t input out =
              Inl (IndexError, map fl xs @ drop (length xs) out))"
proof -
  have a: "PyFunc_call fl f t input out = Inr (out[0 := fl x])" if "obj = PyFloat x"
    using that assms(1) by (simp add: PyFunc_call_def)
  have seq: "extract_float fl obj = Inl TypeError \<and>
             (\<forall>k<length xs. py_getitem obj k = Inr (PyFloat (xs ! k))) \<and>
             py_getitem obj (length xs) = Inl IndexError"
    if "obj = PyList (map PyFloat xs) \<or> obj = PyArray xs"
    using that by auto
  have b: "PyFunc_call fl f t input out = Inr (map fl (take (length out) xs))"
    if h: "(obj = PyList (map PyFloat xs) \<or> obj = PyArray xs) \<and> length out \<le> length xs"
  proof -
    have "write_output fl obj 0 out =
          Inr (take 0 out @ map fl (take (length out - 0) (drop 0 xs)))"
      using h seq by (intro write_output_items) simp_all
    then show ?thesis
      using assms(1) h seq by (simp add: PyFunc_call_def)
  qed
  have c: "PyFunc_call fl f t input out = Inl (IndexError, map fl xs @ drop (length xs) out)"
    if h: "(obj = PyList (map PyFloat xs) \<or> obj = PyArray xs) \<and> length xs < length out"
  proof -
    have "write_output fl obj 0 out =
          Inl (IndexError, take 0 out @ map fl (drop 0 xs) @ drop (length xs) out)"
      using h seq by (intro write_output_short) simp_all
    then show ?thesis
      using assms(1) h seq by (simp add: PyFunc_call_def)
  qed
  show ?thesis
    by (rule conjI, rule impI, erule a, rule conjI, rule impI, erule b, rule impI, erule c)
qed

text \<open>
  An output of two elements takes the number 7 in element 0, and the first two elements of
  \<open>[1, 2, 3]\<close>; with an output of four elements the operator raises on that list and leaves
  \<open>[1, 2, 3]\<close> in front of the old last element.
\<close>

theorem PyFunc_accepts_other_shapes_witness:
  "PyFunc_call (\<lambda>x. x) scalar_callback 0 [] [0, 0] = Inr [7, 0] \<and>
   PyFunc_call (\<lambda>x. x) list_callback 0 [] [0, 0] = Inr [1, 2] \<and>
   PyFunc_call (\<lambda>x. x) list_callback 0 [] [0, 0, 0, 9] = Inl (IndexError, [1, 2, 3, 9])"
proof -
  have s: "py_fn scalar_callback (PyFunc_args scalar_callback 0 []) = Inr (PyFloat 7)"
    by (simp add: scalar_callback_def)
  have l: "py_fn list_callback (PyFunc_args list_callback 0 []) = Inr (PyList (map PyFloat [1, 2, 3]))"
    by (simp add: list_callback_def)
  have "PyFunc_call (\<lambda>x. x) scalar_callback 0 [] [0, 0] = Inr [7, 0]"
    using PyFunc_accepts_other_shapes [OF s, where out = "[0, 0]" and x = 7 and fl = "\<lambda>x. x"]
    by simp
  moreover have "PyFunc_call (\<lambda>x. x) list_callback 0 [] [0, 0] = Inr [1, 2]"
    using PyFunc_accepts_other_shapes [OF l, where out = "[0, 0]" and xs = "[1, 2, 3]"
        and fl = "\<lambda>x. x"]
    by simp
  moreover have "PyFunc_call (\<lambda>x. x) list_callback 0 [] [0, 0, 0, 9] = Inl (IndexError, [1, 2, 3, 9])"
    using PyFunc_accepts_other_shapes [OF l, where out = "[0, 0, 0, 9]" and xs = "[1, 2, 3]"
        and fl = "\<lambda>x. x"]
    by simp
  ultimately show ?thesis by simp
qed

text \<open>
  Claim C6 as stated fails: a callback that returns three elements for an output view of
  two raises nothing; the operator returns with the first two elements stored.
\<close>

theorem PyFunc_longer_result_counterexample:
  "PyFunc_call (\<lambda>x. x) list_callback 0 [] [0, 0] = Inr [1, 2]"
  by (simp add: PyFunc_call_def PyFunc_args_def list_callback_def write_output.simps)

section \<open>Reset\<close>

text \<open>
  Claim C2 against the code: \<^verbatim>\<open>MpiSimulator::reset\<close> has no statement in its body. After
  it, the simulator that has run one step is as it was: the signal is 1 and its initial
  value 0, the time is 0.001, the probe buffer and the gathered probe data hold the sample,
  and the receive operator still has \<open>first_call\<close> cleared.
\<close>

theorem reset_changes_nothing:
  "reset stepped_simulator = stepped_simulator \<and>
   signals (master_chunk (reset stepped_simulator)) = 1 \<and>
   initial (master_chunk (reset stepped_simulator)) = 0 \<and>
   time (master_chunk (reset stepped_simulator)) = 0.001 \<and>
   map_option probe_buffer (probes (master_chunk (reset stepped_simulator)) 5) = Some [[1]] \<and>
   probe_data (reset stepped_simulator) 5 = Some [[1]] \<and>
   map first_call (mpi_recvs (master_chunk (reset stepped_simulator))) = [False]"
  by (simp add: reset_def stepped_simulator_def counter_chunk_def chunk_step_def Let_def
      invoke_operators_def sample_def flush_probes_def FLUSH_PROBES_EVERY_def
      signed_modulo_int_def)


end
